theory Spec2Isabelle
  imports Complex_Main
begin

section \<open>Common conventions\<close>

text \<open>
  Python floats and NumPy float arrays are values of type \<^typ>\<open>real\<close> and
  \<^typ>\<open>real list\<close>. Where a result depends on how the machine rounds, the rounding
  is part of the model: the loop of refine_beat_grid accumulates IEEE double sums, and
  its additions and its division are the rounded ones of the section on doubles below.
  Elsewhere the arithmetic is exact. Exceptions are values of \<open>py_error\<close>, returned
  on the left of a sum.
\<close>

datatype py_error = IndexError | ZeroDivisionError

text \<open>Python's float \<open>%\<close>: for a nonzero divisor the result has the divisor's sign.\<close>

definition py_fmod :: "real \<Rightarrow> real \<Rightarrow> real" where
  "py_fmod x y = x - y * of_int \<lfloor>x / y\<rfloor>"

text \<open>Python's \<open>int(x)\<close> on a float truncates towards zero.\<close>

definition py_int :: "real \<Rightarrow> int" where
  "py_int x = (if 0 \<le> x then \<lfloor>x\<rfloor> else \<lceil>x\<rceil>)"

text \<open>Rounding to the nearest integer, halves to the even neighbour (\<open>round\<close>, \<open>np.round\<close>).\<close>

definition round_half_even :: "real \<Rightarrow> int" where
  "round_half_even x =
     (let f = \<lfloor>x\<rfloor>; d = x - of_int f
      in if d < 1 / 2 then f else if 1 / 2 < d then f + 1 else if even f then f else f + 1)"

text \<open>\<open>round(x, 2)\<close>.\<close>

definition py_round2 :: "real \<Rightarrow> real" where
  "py_round2 x = of_int (round_half_even (x * 100)) / 100"

section \<open>IEEE doubles\<close>

text \<open>
  A Python float is an IEEE 754 double: 53 significant bits, exponents from -1022 to
  1023, gradual underflow, round to nearest with ties to even. The result of an
  operation on finite doubles is the exact result rounded, or an infinity on overflow.
\<close>

datatype xfloat = Finite real | PosInf | NegInf

text \<open>
  The binary exponent of a positive number: the \<open>e\<close> with \<open>2^e \<le> x < 2^(e+1)\<close>.
\<close>

function pos_exponent :: "real \<Rightarrow> int" where
  "pos_exponent x =
     (if x \<le> 0 then 0
      else if 2 \<le> x then pos_exponent (x / 2) + 1
      else if x < 1 then pos_exponent (2 * x) - 1
      else 0)"
  by pat_completeness auto
termination
proof (relation "measure (\<lambda>x. nat \<bar>\<lfloor>log 2 x\<rfloor>\<bar>)")
  show "wf (measure (\<lambda>x. nat \<bar>\<lfloor>log 2 x\<rfloor>\<bar>))" by simp
next
  fix x :: real
  assume "\<not> x \<le> 0" and x2: "2 \<le> x"
  then have "log 2 (x / 2) = log 2 x - 1" by (simp add: log_divide)
  moreover have "1 \<le> log 2 x" using x2 by (simp add: le_log_iff)
  then have "1 \<le> \<lfloor>log 2 x\<rfloor>" by linarith
  ultimately show "(x / 2, x) \<in> measure (\<lambda>x. nat \<bar>\<lfloor>log 2 x\<rfloor>\<bar>)" by simp
next
  fix x :: real
  assume x0: "\<not> x \<le> 0" and "\<not> 2 \<le> x" and x1: "x < 1"
  then have "log 2 (2 * x) = 1 + log 2 x" by (simp add: log_mult)
  moreover have "log 2 x < 0" using x0 x1 by simp
  then have "\<lfloor>log 2 x\<rfloor> \<le> - 1" by linarith
  ultimately show "(2 * x, x) \<in> measure (\<lambda>x. nat \<bar>\<lfloor>log 2 x\<rfloor>\<bar>)" by simp
qed

declare pos_exponent.simps [simp del]

text \<open>
  The exponent of the spacing of the doubles around \<open>x\<close>; below \<open>2^-1022\<close> the
  spacing stays \<open>2^-1074\<close>.
\<close>

definition ulp_exponent :: "real \<Rightarrow> int" where
  "ulp_exponent x = max (pos_exponent \<bar>x\<bar>) (- 1022) - 52"

text \<open>Rounding to the nearest multiple of the spacing, ties to the even multiple.\<close>

definition round_to_grid :: "real \<Rightarrow> real" where
  "round_to_grid x =
     of_int (round_half_even (x / 2 powi ulp_exponent x)) * 2 powi ulp_exponent x"

text \<open>A rounded magnitude of \<open>2^1024\<close> or more is an infinity.\<close>

definition round_double :: "real \<Rightarrow> xfloat" where
  "round_double x =
     (let r = round_to_grid x
      in if 2 powi 1024 \<le> r then PosInf
         else if r \<le> - (2 powi 1024) then NegInf
         else Finite r)"

text \<open>The doubles are the finite values that rounding leaves alone.\<close>

definition is_double :: "real \<Rightarrow> bool" where
  "is_double x \<longleftrightarrow> round_double x = Finite x"

text \<open>
  The sum \<open>a + b\<close> of a finite double and a double that may be infinite.
\<close>

definition float_add :: "real \<Rightarrow> xfloat \<Rightarrow> xfloat" where
  "float_add a b =
     (case b of Finite b' \<Rightarrow> round_double (a + b') | PosInf \<Rightarrow> PosInf | NegInf \<Rightarrow> NegInf)"

section \<open>config.py\<close>

definition MELODY_MIN_NOTE_DURATION :: real where
  "MELODY_MIN_NOTE_DURATION = 1 / 10"

definition MIDI_VELOCITY_DEFAULT :: int where
  "MIDI_VELOCITY_DEFAULT = 64"

definition MIDI_DRUM_VELOCITY :: int where
  "MIDI_DRUM_VELOCITY = 80"

definition MIDI_DRUM_DURATION :: real where
  "MIDI_DRUM_DURATION = 1 / 10"

definition DRUM_MAPPING :: "(string \<times> int) list" where
  "DRUM_MAPPING =
     [(''kick'', 35), (''snare'', 38), (''closed_hat'', 42), (''open_hat'', 46), (''crash'', 49)]"

definition DRUM_THRESH_kick_lowband :: real where
  "DRUM_THRESH_kick_lowband = 65 / 100"

definition DRUM_THRESH_snare_mid :: real where
  "DRUM_THRESH_snare_mid = 6 / 10"

definition DRUM_THRESH_hat_high :: real where
  "DRUM_THRESH_hat_high = 6 / 10"

definition DRUM_FREQ_BANDS_kick :: "real \<times> real" where
  "DRUM_FREQ_BANDS_kick = (20, 150)"

definition DRUM_FREQ_BANDS_snare :: "real \<times> real" where
  "DRUM_FREQ_BANDS_snare = (150, 800)"

definition DRUM_FREQ_BANDS_hat :: "real \<times> real" where
  "DRUM_FREQ_BANDS_hat = (800, 8000)"

section \<open>drums.py\<close>

record drum_hit =
  hit_time :: real
  hit_type :: string
  start_sample :: int
  end_sample :: int

record midi_note =
  mn_velocity :: int
  mn_pitch :: int
  mn_start :: real
  mn_end :: real

subsection \<open>classify_drum_segment\<close>

text \<open>
  \<open>np.fft.fft\<close> followed by \<open>np.abs\<close>: the magnitude of bin \<open>k\<close> of the discrete
  Fourier transform of the segment.
\<close>

definition fft_abs :: "real list \<Rightarrow> nat \<Rightarrow> real" where
  "fft_abs segment k =
     cmod (\<Sum>(n, x) \<leftarrow> zip [0..<length segment] segment.
             of_real x * cis (- 2 * pi * real k * real n / real (length segment)))"

text \<open>
  \<open>np.fft.fftfreq(n, d)\<close>: the first \<open>(n - 1) div 2 + 1\<close> bins carry the frequencies
  \<open>k / (n d)\<close>, the others the negative frequencies \<open>(k - n) / (n d)\<close>.
\<close>

definition fftfreq :: "nat \<Rightarrow> real \<Rightarrow> nat \<Rightarrow> real" where
  "fftfreq n d k =
     (if k < (n - 1) div 2 + 1 then real k else real_of_int (int k - int n)) * (1 / (real n * d))"

text \<open>The (frequency, magnitude) pairs that survive the mask \<open>freqs > 0\<close>.\<close>

definition positive_spectrum :: "real list \<Rightarrow> real \<Rightarrow> (real \<times> real) list" where
  "positive_spectrum segment d =
     filter (\<lambda>(f, m). 0 < f)
       (map (\<lambda>k. (fftfreq (length segment) d k, fft_abs segment k)) [0..<length segment])"

definition band_energy :: "(real \<times> real) list \<Rightarrow> real \<times> real \<Rightarrow> real" where
  "band_energy spectrum band =
     sum_list (map snd (filter (\<lambda>(f, m). fst band \<le> f \<and> f \<le> snd band) spectrum))"

text \<open>A quotient that records a zero divisor as an error instead of hiding it.\<close>

definition checked_div :: "real \<Rightarrow> real \<Rightarrow> py_error + real" where
  "checked_div a b = (if b = 0 then Inl ZeroDivisionError else Inr (a / b))"

definition classify_by_ratio :: "real \<Rightarrow> real \<Rightarrow> real \<Rightarrow> string" where
  "classify_by_ratio kick_ratio snare_ratio hat_ratio =
     (if DRUM_THRESH_kick_lowband < kick_ratio then ''kick''
      else if DRUM_THRESH_snare_mid < snare_ratio then ''snare''
      else if DRUM_THRESH_hat_high < hat_ratio then ''hat''
      else ''unknown'')"

text \<open>
  The sample rate is a Python \<open>int\<close>, so \<open>1/sr\<close> raises for \<open>sr = 0\<close>; the three
  ratios go through \<open>checked_div\<close>, so a zero divisor there would surface as an error.
\<close>

definition classify_drum_segment :: "real list \<Rightarrow> int \<Rightarrow> py_error + string" where
  "classify_drum_segment segment sr =
     (if length segment = 0 then Inr ''unknown''
      else if sr = 0 then Inl ZeroDivisionError
      else
        let spectrum = positive_spectrum segment (1 / real_of_int sr);
            kick_energy = band_energy spectrum DRUM_FREQ_BANDS_kick;
            snare_energy = band_energy spectrum DRUM_FREQ_BANDS_snare;
            hat_energy = band_energy spectrum DRUM_FREQ_BANDS_hat;
            total_energy = kick_energy + snare_energy + hat_energy
        in if total_energy = 0 then Inr ''unknown''
           else
             (case checked_div kick_energy total_energy of
                Inl e \<Rightarrow> Inl e
              | Inr kick_ratio \<Rightarrow>
                 (case checked_div snare_energy total_energy of
                    Inl e \<Rightarrow> Inl e
                  | Inr snare_ratio \<Rightarrow>
                     (case checked_div hat_energy total_energy of
                        Inl e \<Rightarrow> Inl e
                      | Inr hat_ratio \<Rightarrow>
                          Inr (classify_by_ratio kick_ratio snare_ratio hat_ratio)))))"

subsection \<open>create_drum_midi\<close>

text \<open>
  The notes appended to the drum track, in order. The surrounding \<open>PrettyMIDI\<close>
  container and the file write belong to the external MIDI library.
\<close>

fun drum_track_notes :: "midi_note list \<Rightarrow> drum_hit list \<Rightarrow> midi_note list" where
  "drum_track_notes notes [] = notes"
| "drum_track_notes notes (hit # hits) =
     (let drum_type = hit_type hit
      in case map_of DRUM_MAPPING drum_type of
           Some p \<Rightarrow>
             drum_track_notes
               (notes @ [\<lparr>mn_velocity = MIDI_DRUM_VELOCITY, mn_pitch = p,
                          mn_start = hit_time hit,
                          mn_end = hit_time hit + MIDI_DRUM_DURATION\<rparr>]) hits
         | None \<Rightarrow> drum_track_notes notes hits)"

definition create_drum_midi :: "drum_hit list \<Rightarrow> midi_note list" where
  "create_drum_midi drum_hits = drum_track_notes [] drum_hits"

subsection \<open>detect_drum_loop\<close>

record loop_estimate =
  loop_length :: nat
  loop_confidence :: real
  common_positions :: "real list option"
  repetitions :: int

text \<open>\<open>collections.Counter\<close>: keys in order of first occurrence, with their counts.\<close>

fun counter_add :: "'a \<Rightarrow> ('a \<times> nat) list \<Rightarrow> ('a \<times> nat) list" where
  "counter_add x [] = [(x, 1)]"
| "counter_add x ((y, c) # rest) =
     (if x = y then (y, c + 1) # rest else (y, c) # counter_add x rest)"

definition Counter :: "'a list \<Rightarrow> ('a \<times> nat) list" where
  "Counter xs = foldl (\<lambda>acc x. counter_add x acc) [] xs"

text \<open>\<open>most_common(n)\<close>: stable sort by descending count, first \<open>n\<close> entries.\<close>

definition most_common :: "nat \<Rightarrow> ('a \<times> nat) list \<Rightarrow> ('a \<times> nat) list" where
  "most_common n counts = take n (sort_key (\<lambda>(x, c). - int c) counts)"

definition detect_drum_loop :: "drum_hit list \<Rightarrow> real \<Rightarrow> py_error + loop_estimate" where
  "detect_drum_loop drum_hits tempo =
     (if length drum_hits < 4
      then Inr \<lparr>loop_length = 0, loop_confidence = 0, common_positions = None, repetitions = 0\<rparr>
      else if tempo = 0 then Inl ZeroDivisionError
      else
        let beat_interval = 60 / tempo;
            hit_times = map hit_time drum_hits;
            beat_positions = map (\<lambda>t. py_fmod t beat_interval / beat_interval) hit_times;
            position_counts = Counter (map py_round2 beat_positions);
            common = most_common 4 position_counts;
            len = length common;
            conf = real (sum_list (map snd common)) / real (length drum_hits)
        in Inr \<lparr>loop_length = len, loop_confidence = conf,
                common_positions = Some (map fst common),
                repetitions =
                  (if 0 < len then py_int (conf * real (length drum_hits) / real len) else 0)\<rparr>)"

section \<open>timing.py\<close>

subsection \<open>detect_downbeats\<close>

fun downbeats_loop :: "real \<Rightarrow> real \<Rightarrow> real list \<Rightarrow> real \<Rightarrow> real list \<Rightarrow> real list" where
  "downbeats_loop beat_interval measure_duration downbeats current_measure_start [] = downbeats"
| "downbeats_loop beat_interval measure_duration downbeats current_measure_start (beat_time # rest) =
     (let time_since_measure = py_fmod (beat_time - current_measure_start) measure_duration;
          tolerance = beat_interval * (1 / 10)
      in if time_since_measure < tolerance \<or> measure_duration - time_since_measure < tolerance
         then downbeats_loop beat_interval measure_duration (downbeats @ [beat_time]) beat_time rest
         else downbeats_loop beat_interval measure_duration downbeats current_measure_start rest)"

text \<open>
  The tempo is taken as a Python \<open>float\<close>, as the signature annotates it, so a zero
  tempo raises at \<open>60.0 / tempo\<close> once the beat list is known to be nonempty.
\<close>

definition detect_downbeats :: "real list \<Rightarrow> real \<Rightarrow> int \<Rightarrow> py_error + real list" where
  "detect_downbeats beat_times tempo sr =
     (case beat_times of
        [] \<Rightarrow> Inr []
      | first_beat # _ \<Rightarrow>
          if tempo = 0 then Inl ZeroDivisionError
          else
            let beat_interval = 60 / tempo;
                measures_per_beat = 4;
                measure_duration = beat_interval * measures_per_beat
            in Inr (downbeats_loop beat_interval measure_duration [] first_beat beat_times))"

subsection \<open>refine_beat_grid\<close>

text \<open>
  The \<open>while\<close> loop, with \<open>current_time += beat_interval\<close> as the rounded sum.
  A run that never ends is the value \<open>None\<close>. Once the sum overflows to plus
  infinity the loop condition fails and the beats collected so far are returned; once
  it is minus infinity the condition holds for good and the sum stays minus infinity,
  so the loop never ends.
\<close>

partial_function (option) refine_loop :: "xfloat \<Rightarrow> real \<Rightarrow> real list \<Rightarrow> real \<Rightarrow> real list option" where
  "refine_loop beat_interval duration refined_beats current_time =
     (if current_time \<le> duration
      then (case float_add current_time beat_interval of
              Finite next_time \<Rightarrow>
                refine_loop beat_interval duration (refined_beats @ [current_time]) next_time
            | PosInf \<Rightarrow> Some (refined_beats @ [current_time])
            | NegInf \<Rightarrow> None)
      else Some refined_beats)"

text \<open>
  \<open>60.0 / tempo\<close> raises for a zero tempo; otherwise it is the rounded quotient.
\<close>

definition refine_beat_grid :: "real list \<Rightarrow> real \<Rightarrow> real \<Rightarrow> (py_error + real list) option" where
  "refine_beat_grid beat_times tempo duration =
     (case beat_times of
        [] \<Rightarrow> Some (Inr [])
      | start_time # _ \<Rightarrow>
          if tempo = 0 then Some (Inl ZeroDivisionError)
          else map_option Inr (refine_loop (round_double (60 / tempo)) duration [] start_time))"

text \<open>
  The values that the loop appends from a given current time on, as a relation: the
  list is the finite run of the loop from there.
\<close>

fun grid_from :: "xfloat \<Rightarrow> real \<Rightarrow> real \<Rightarrow> real list \<Rightarrow> bool" where
  "grid_from beat_interval duration current_time [] \<longleftrightarrow> \<not> current_time \<le> duration"
| "grid_from beat_interval duration current_time (x # xs) \<longleftrightarrow>
     x = current_time \<and> current_time \<le> duration \<and>
     (case float_add current_time beat_interval of
        Finite next_time \<Rightarrow> grid_from beat_interval duration next_time xs
      | PosInf \<Rightarrow> xs = []
      | NegInf \<Rightarrow> False)"

declare refine_loop.simps [code]

subsection \<open>analyze_tempo_and_beats and create_beat_grid\<close>

text \<open>
  The beat tracker is an external estimator. The model takes what it hands back: the
  tempo, the detected beat times (the local \<open>beat_times\<close> of analyze_tempo_and_beats)
  and the clip duration \<open>len(audio) / sr\<close>. The fields that are computed from the onset
  envelope or by detect_time_signature (beat confidence, time signature, rhythm
  regularity, syncopation) are not part of the records below.
\<close>

record tempo_analysis =
  ta_bpm :: real
  ta_beat_times :: "real list"
  ta_downbeat_times :: "real list"
  ta_total_beats :: nat
  ta_duration :: real

record beat_grid =
  bg_tempo :: real
  bg_beat_times :: "real list"
  bg_downbeat_times :: "real list"
  bg_duration :: real
  bg_total_beats :: nat

definition analyze_tempo_and_beats :: "real \<Rightarrow> real list \<Rightarrow> real \<Rightarrow> int \<Rightarrow> py_error + tempo_analysis" where
  "analyze_tempo_and_beats tempo beat_times duration sr =
     (case detect_downbeats beat_times tempo sr of
        Inl e \<Rightarrow> Inl e
      | Inr downbeat_times \<Rightarrow>
          Inr \<lparr>ta_bpm = tempo, ta_beat_times = beat_times, ta_downbeat_times = downbeat_times,
               ta_total_beats = length beat_times, ta_duration = duration\<rparr>)"

definition create_beat_grid :: "real \<Rightarrow> real list \<Rightarrow> real \<Rightarrow> int \<Rightarrow> (py_error + beat_grid) option" where
  "create_beat_grid tempo beat_times duration sr =
     (case analyze_tempo_and_beats tempo beat_times duration sr of
        Inl e \<Rightarrow> Some (Inl e)
      | Inr tempo_analysis \<Rightarrow>
          (case refine_beat_grid (ta_beat_times tempo_analysis) (ta_bpm tempo_analysis)
                  (ta_duration tempo_analysis) of
             None \<Rightarrow> None
           | Some (Inl e) \<Rightarrow> Some (Inl e)
           | Some (Inr refined_beats) \<Rightarrow>
               Some (Inr \<lparr>bg_tempo = ta_bpm tempo_analysis,
                          bg_beat_times = refined_beats,
                          bg_downbeat_times = ta_downbeat_times tempo_analysis,
                          bg_duration = ta_duration tempo_analysis,
                          bg_total_beats = length refined_beats\<rparr>)))"

section \<open>chords.py\<close>

subsection \<open>merge_consecutive_chords\<close>

record chord_event =
  ce_time :: real
  ce_label :: string
  ce_confidence :: real

fun merge_loop :: "chord_event list \<Rightarrow> chord_event \<Rightarrow> (real \<times> string \<times> real) list \<Rightarrow> chord_event list" where
  "merge_loop merged current_chord [] = merged @ [current_chord]"
| "merge_loop merged current_chord ((t, l, c) # rest) =
     (if l = ce_label current_chord
      then merge_loop merged
             (current_chord\<lparr>ce_confidence := max (ce_confidence current_chord) c\<rparr>) rest
      else merge_loop (merged @ [current_chord])
             \<lparr>ce_time = t, ce_label = l, ce_confidence = c\<rparr> rest)"

text \<open>
  The loop reads \<open>labels[i]\<close> and \<open>confidences[i]\<close> for every index of the time list, so a
  shorter list raises IndexError; longer ones are read only up to \<open>len(times)\<close>.
\<close>

definition merge_consecutive_chords :: "real list \<Rightarrow> string list \<Rightarrow> real list \<Rightarrow> py_error + chord_event list" where
  "merge_consecutive_chords times_in labels confidences =
     (if times_in = [] then Inr []
      else if length labels < length times_in \<or> length confidences < length times_in
      then Inl IndexError
      else
        (case zip times_in (zip labels confidences) of
           [] \<Rightarrow> Inr []
         | (t, l, c) # rest \<Rightarrow>
             Inr (merge_loop [] \<lparr>ce_time = t, ce_label = l, ce_confidence = c\<rparr> rest)))"

text \<open>The entries that the three parallel lists hold for one event.\<close>

definition event_triple :: "chord_event \<Rightarrow> real \<times> string \<times> real" where
  "event_triple e = (ce_time e, ce_label e, ce_confidence e)"

section \<open>melody.py\<close>

record melody_note =
  mel_pitch :: int
  mel_start_time :: real
  mel_end_time :: real
  mel_duration :: real
  mel_confidence :: real
  mel_velocity :: int

subsection \<open>f0_to_midi_notes\<close>

text \<open>\<open>librosa.hz_to_midi\<close>.\<close>

definition hz_to_midi :: "real \<Rightarrow> real" where
  "hz_to_midi f = 12 * (log 2 f - log 2 440) + 69"

text \<open>
  The rounded integer note number of a frame. A frequency that is not positive has no
  finite logarithm; the integer cast of that value is far outside the MIDI range, so
  the frame never passes the validity mask: it has no note number here.
\<close>

definition midi_number :: "real \<Rightarrow> int option" where
  "midi_number f = (if f \<le> 0 then None else Some (round_half_even (hz_to_midi f)))"

definition np_mean :: "real list \<Rightarrow> real" where
  "np_mean xs = sum_list xs / real (length xs)"

definition make_note :: "int \<Rightarrow> real \<Rightarrow> real \<Rightarrow> real list \<Rightarrow> melody_note" where
  "make_note current_note note_start note_end note_confidence =
     (let avg_confidence = np_mean note_confidence
      in \<lparr>mel_pitch = current_note, mel_start_time = note_start, mel_end_time = note_end,
           mel_duration = note_end - note_start, mel_confidence = avg_confidence,
           mel_velocity = py_int (real_of_int MIDI_VELOCITY_DEFAULT * avg_confidence)\<rparr>)"

text \<open>Closing a run: the note is appended only if its duration is within the limits.\<close>

definition close_note :: "real \<Rightarrow> real \<Rightarrow> melody_note list \<Rightarrow> int \<Rightarrow> real \<Rightarrow> real \<Rightarrow> real list \<Rightarrow> melody_note list" where
  "close_note min_note_duration max_note_duration notes current_note note_start note_end note_confidence =
     (let note_duration = note_end - note_start
      in if min_note_duration \<le> note_duration \<and> note_duration \<le> max_note_duration
         then notes @ [make_note current_note note_start note_end note_confidence]
         else notes)"

text \<open>
  The segmentation loop over the valid frames (time, note number, confidence);
  \<open>prev_time\<close> is \<open>valid_times[i-1]\<close>, and \<open>valid_times[-1]\<close> once the frames are used up.
\<close>

fun segment_loop :: "real \<Rightarrow> real \<Rightarrow> melody_note list \<Rightarrow> int \<Rightarrow> real \<Rightarrow> real list \<Rightarrow> real \<Rightarrow> (real \<times> int \<times> real) list \<Rightarrow> melody_note list" where
  "segment_loop mn mx notes current_note note_start note_confidence prev_time [] =
     close_note mn mx notes current_note note_start prev_time note_confidence"
| "segment_loop mn mx notes current_note note_start note_confidence prev_time ((t, p, c) # rest) =
     (if p = current_note
      then segment_loop mn mx notes current_note note_start (note_confidence @ [c]) t rest
      else segment_loop mn mx
             (close_note mn mx notes current_note note_start prev_time note_confidence)
             p t [c] t rest)"

definition valid_frames :: "real list \<Rightarrow> real list \<Rightarrow> real list \<Rightarrow> real \<Rightarrow> (real \<times> int \<times> real) list" where
  "valid_frames f0_times f0_frequencies f0_confidence confidence_threshold =
     concat (map (\<lambda>(t, f, c).
                    if confidence_threshold < c
                    then (case midi_number f of
                            None \<Rightarrow> []
                          | Some m \<Rightarrow> if 0 \<le> m \<and> m \<le> 127 then [(t, m, c)] else [])
                    else [])
               (zip f0_times (zip f0_frequencies f0_confidence)))"

text \<open>A boolean mask whose length differs from the masked array raises IndexError.\<close>

definition f0_to_midi_notes :: "real list \<Rightarrow> real list \<Rightarrow> real list \<Rightarrow> real \<Rightarrow> real \<Rightarrow> real \<Rightarrow> py_error + melody_note list" where
  "f0_to_midi_notes f0_times f0_frequencies f0_confidence confidence_threshold
       min_note_duration max_note_duration =
     (if length f0_times \<noteq> length f0_confidence \<or> length f0_frequencies \<noteq> length f0_confidence
      then Inl IndexError
      else
        (case valid_frames f0_times f0_frequencies f0_confidence confidence_threshold of
           [] \<Rightarrow> Inr []
         | (t, p, c) # rest \<Rightarrow>
             Inr (segment_loop min_note_duration max_note_duration [] p t [c] t rest)))"

text \<open>
  The duration invariant of a melody note with respect to the configured limits.
\<close>

definition duration_ok :: "real \<Rightarrow> real \<Rightarrow> melody_note \<Rightarrow> bool" where
  "duration_ok mn mx n \<longleftrightarrow>
     mn \<le> mel_duration n \<and> mel_duration n \<le> mx
     \<and> mel_duration n = mel_end_time n - mel_start_time n"

subsection \<open>quantize_notes_to_beats\<close>

text \<open>\<open>np.argmin\<close>: the first index of the least element.\<close>

fun argmin_loop :: "nat \<Rightarrow> real \<Rightarrow> nat \<Rightarrow> real list \<Rightarrow> nat" where
  "argmin_loop best_i best_v i [] = best_i"
| "argmin_loop best_i best_v i (x # xs) =
     (if x < best_v then argmin_loop i x (Suc i) xs else argmin_loop best_i best_v (Suc i) xs)"

definition np_argmin :: "real list \<Rightarrow> nat" where
  "np_argmin xs = (case xs of [] \<Rightarrow> 0 | x # rest \<Rightarrow> argmin_loop 0 x 1 rest)"

definition nearest_beat :: "real list \<Rightarrow> real \<Rightarrow> real" where
  "nearest_beat beat_times t = beat_times ! np_argmin (map (\<lambda>b. \<bar>b - t\<bar>) beat_times)"

definition quantize_note :: "real list \<Rightarrow> real \<Rightarrow> melody_note \<Rightarrow> melody_note" where
  "quantize_note beat_times quantization_strength note =
     (let quantized_start = nearest_beat beat_times (mel_start_time note);
          quantized_end = nearest_beat beat_times (mel_end_time note);
          new_start = mel_start_time note * (1 - quantization_strength)
                        + quantized_start * quantization_strength;
          new_end0 = mel_end_time note * (1 - quantization_strength)
                        + quantized_end * quantization_strength;
          new_end = (if new_end0 - new_start < MELODY_MIN_NOTE_DURATION
                     then new_start + MELODY_MIN_NOTE_DURATION else new_end0)
      in note\<lparr>mel_start_time := new_start, mel_end_time := new_end,
               mel_duration := new_end - new_start\<rparr>)"

definition quantize_notes_to_beats :: "melody_note list \<Rightarrow> real list \<Rightarrow> real \<Rightarrow> melody_note list" where
  "quantize_notes_to_beats notes beat_times quantization_strength =
     (if beat_times = [] \<or> notes = [] then notes
      else map (quantize_note beat_times quantization_strength) notes)"

section \<open>Properties of drums.py\<close>

lemma sum_list_all_zero:
  fixes f :: "'a \<Rightarrow> 'b::comm_monoid_add"
  assumes "\<And>x. x \<in> set xs \<Longrightarrow> f x = 0"
  shows "sum_list (map f xs) = 0"
  using assms by (induction xs) simp_all

lemma fft_abs_silence:
  assumes "\<forall>x \<in> set segment. x = 0"
  shows "fft_abs segment k = 0"
proof -
  have "(\<Sum>(n, x) \<leftarrow> zip [0..<length segment] segment.
           of_real x * cis (- 2 * pi * real k * real n / real (length segment))) = (0::complex)"
  proof (rule sum_list_all_zero)
    fix p assume "p \<in> set (zip [0..<length segment] segment)"
    then have "snd p \<in> set segment"
      by (metis prod.collapse set_zip_rightD)
    with assms have "snd p = 0" by blast
    then show "(case p of (n, x) \<Rightarrow>
        of_real x * cis (- 2 * pi * real k * real n / real (length segment))) = (0::complex)"
      by (cases p) simp
  qed
  then show ?thesis by (simp add: fft_abs_def)
qed

lemma band_energy_silence:
  assumes "\<forall>x \<in> set segment. x = 0"
  shows "band_energy (positive_spectrum segment d) band = 0"
proof -
  have "\<And>p. p \<in> set (positive_spectrum segment d) \<Longrightarrow> snd p = 0"
    using assms by (auto simp: positive_spectrum_def fft_abs_silence)
  then show ?thesis
    unfolding band_energy_def by (intro sum_list_all_zero) auto
qed

lemma classify_drum_segment_returns:
  assumes "sr \<noteq> 0"
  shows "\<exists>label. classify_drum_segment segment sr = Inr label"
  using assms by (simp add: classify_drum_segment_def checked_div_def Let_def)

text \<open>
  C8. For the empty segment, and for every all-zero segment at a nonzero sample rate,
  classify_drum_segment returns "unknown"; and at a nonzero sample rate no segment
  whatsoever makes it raise: the three ratios are only formed once the summed band
  energy is known to be nonzero, so the checked quotients never fail.
\<close>

theorem classify_drum_segment_silence:
  assumes "sr \<noteq> 0" and "\<forall>x \<in> set segment. x = 0"
  shows "classify_drum_segment [] sr0 = Inr ''unknown''
         \<and> classify_drum_segment segment sr = Inr ''unknown''
         \<and> classify_drum_segment seg sr \<noteq> Inl ZeroDivisionError"
proof -
  have "classify_drum_segment [] sr0 = Inr ''unknown''"
    by (simp add: classify_drum_segment_def)
  moreover have "classify_drum_segment segment sr = Inr ''unknown''"
    using assms by (simp add: classify_drum_segment_def band_energy_silence Let_def)
  moreover have "classify_drum_segment seg sr \<noteq> Inl ZeroDivisionError"
    using classify_drum_segment_returns [OF assms(1), of seg] by auto
  ultimately show ?thesis by simp
qed

theorem classify_drum_segment_silence_witness:
  "(44100::int) \<noteq> 0 \<and> list_all (\<lambda>x. x = 0) [0, 0, 0, 0::real]
   \<and> classify_drum_segment [] 0 = Inr ''unknown''
   \<and> classify_drum_segment [0, 0, 0, 0] 44100 = Inr ''unknown''
   \<and> classify_drum_segment [1, -1, 1, -1] 44100 \<noteq> Inl ZeroDivisionError"
  using classify_drum_segment_silence [of 44100 "[0, 0, 0, 0]" 0 "[1, -1, 1, -1]"]
  by simp

text \<open>
  C9. With fewer than four hits detect_drum_loop returns the zeroed estimate, whatever
  the hits and the tempo are (also for tempo 0, which the later division never sees).
\<close>

theorem detect_drum_loop_few_hits:
  "length drum_hits < 4 \<Longrightarrow>
   detect_drum_loop drum_hits tempo =
     Inr \<lparr>loop_length = 0, loop_confidence = 0, common_positions = None, repetitions = 0\<rparr>"
  by (simp add: detect_drum_loop_def)

theorem detect_drum_loop_few_hits_witness:
  "length [\<lparr>hit_time = 1 / 2, hit_type = ''kick'', start_sample = 19845, end_sample = 26460\<rparr>,
           \<lparr>hit_time = 1, hit_type = ''snare'', start_sample = 41895, end_sample = 48510\<rparr>,
           \<lparr>hit_time = 3 / 2, hit_type = ''kick'', start_sample = 63945, end_sample = 70560\<rparr>] < 4
   \<and> detect_drum_loop
       [\<lparr>hit_time = 1 / 2, hit_type = ''kick'', start_sample = 19845, end_sample = 26460\<rparr>,
        \<lparr>hit_time = 1, hit_type = ''snare'', start_sample = 41895, end_sample = 48510\<rparr>,
        \<lparr>hit_time = 3 / 2, hit_type = ''kick'', start_sample = 63945, end_sample = 70560\<rparr>] 0
     = Inr \<lparr>loop_length = 0, loop_confidence = 0, common_positions = None, repetitions = 0\<rparr>"
  using detect_drum_loop_few_hits
    [of "[\<lparr>hit_time = 1 / 2, hit_type = ''kick'', start_sample = 19845, end_sample = 26460\<rparr>,
          \<lparr>hit_time = 1, hit_type = ''snare'', start_sample = 41895, end_sample = 48510\<rparr>,
          \<lparr>hit_time = 3 / 2, hit_type = ''kick'', start_sample = 63945, end_sample = 70560\<rparr>]" 0]
  by simp

text \<open>
  C1. create_drum_midi looks the hit type up in DRUM_MAPPING, whose keys are kick, snare,
  closed_hat, open_hat and crash. The classifier's third output type is hat, which is
  no key of the table: a hit of type hat produces no note at all. Of a kick at 0.5 s
  followed by a hat at 1 s only the kick reaches the drum track.
\<close>

theorem create_drum_midi_drops_hat:
  "create_drum_midi
     [\<lparr>hit_time = 1 / 2, hit_type = ''kick'', start_sample = 19845, end_sample = 26460\<rparr>,
      \<lparr>hit_time = 1, hit_type = ''hat'', start_sample = 41895, end_sample = 48510\<rparr>]
   = [\<lparr>mn_velocity = 80, mn_pitch = 35, mn_start = 1 / 2, mn_end = 6 / 10\<rparr>]"
  by (simp add: create_drum_midi_def DRUM_MAPPING_def MIDI_DRUM_VELOCITY_def
      MIDI_DRUM_DURATION_def)

section \<open>Properties of double rounding\<close>

lemma round_half_even_mono: "x \<le> y \<Longrightarrow> round_half_even x \<le> round_half_even y"
proof -
  assume xy: "x \<le> y"
  have fl: "\<lfloor>x\<rfloor> \<le> \<lfloor>y\<rfloor>" using xy by (rule floor_mono)
  show ?thesis
  proof (cases "\<lfloor>x\<rfloor> = \<lfloor>y\<rfloor>")
    case True
    then show ?thesis using xy by (auto simp: round_half_even_def Let_def)
  next
    case False
    then have "\<lfloor>x\<rfloor> + 1 \<le> \<lfloor>y\<rfloor>" using fl by simp
    moreover have "round_half_even x \<le> \<lfloor>x\<rfloor> + 1" by (simp add: round_half_even_def Let_def)
    moreover have "\<lfloor>y\<rfloor> \<le> round_half_even y" by (simp add: round_half_even_def Let_def)
    ultimately show ?thesis by linarith
  qed
qed

lemma round_half_even_of_int [simp]: "round_half_even (of_int n) = n"
  by (simp add: round_half_even_def)

lemma round_half_even_minus: "round_half_even (- x) = - round_half_even x"
proof (cases "x = of_int \<lfloor>x\<rfloor>")
  case True
  then obtain n where "x = of_int n" ..
  then have "round_half_even (- x) = round_half_even (of_int (- n))" by simp
  then show ?thesis using \<open>x = of_int n\<close> by (simp del: of_int_minus)
next
  case False
  then have lt: "of_int \<lfloor>x\<rfloor> < x" by (metis of_int_floor_le order_le_less)
  have x1: "x < of_int \<lfloor>x\<rfloor> + 1" by linarith
  have "\<lfloor>- x\<rfloor> = - \<lfloor>x\<rfloor> - 1"
  proof (rule floor_unique)
    show "of_int (- \<lfloor>x\<rfloor> - 1) \<le> - x" by simp linarith
    show "- x < of_int (- \<lfloor>x\<rfloor> - 1) + 1" using lt by simp
  qed
  then show ?thesis using lt x1
    by (auto simp: round_half_even_def Let_def)
qed

lemma round_half_even_error: "\<bar>of_int (round_half_even x) - x\<bar> \<le> 1 / 2"
proof -
  have "of_int \<lfloor>x\<rfloor> \<le> x" "x < of_int \<lfloor>x\<rfloor> + 1" by linarith+
  then show ?thesis by (auto simp: round_half_even_def Let_def)
qed

lemma pos_exponent_bounds:
  "0 < x \<Longrightarrow> 2 powi pos_exponent x \<le> x \<and> x < 2 powi (pos_exponent x + 1)"
proof (induction x rule: pos_exponent.induct)
  case (1 x)
  show ?case
  proof (cases "2 \<le> x")
    case True
    then have pe: "pos_exponent x = pos_exponent (x / 2) + 1"
      using "1.prems" by (subst pos_exponent.simps) simp
    have "2 powi pos_exponent (x / 2) \<le> x / 2 \<and> x / 2 < 2 powi (pos_exponent (x / 2) + 1)"
      using "1.IH"(1) True "1.prems" by simp
    then show ?thesis unfolding pe by (simp add: power_int_add)
  next
    case False
    show ?thesis
    proof (cases "x < 1")
      case True
      then have pe: "pos_exponent x = pos_exponent (2 * x) - 1"
        using "1.prems" False by (subst pos_exponent.simps) simp
      have "2 powi pos_exponent (2 * x) \<le> 2 * x \<and> 2 * x < 2 powi (pos_exponent (2 * x) + 1)"
        using "1.IH"(2) True False "1.prems" by simp
      then show ?thesis unfolding pe by (simp add: power_int_add power_int_diff)
    next
      case False
      then have "pos_exponent x = 0"
        using "1.prems" \<open>\<not> 2 \<le> x\<close> by (subst pos_exponent.simps) simp
      then show ?thesis using False \<open>\<not> 2 \<le> x\<close> by simp
    qed
  qed
qed

lemma pos_exponent_unique:
  assumes "0 < x" and "2 powi k \<le> x" and "x < 2 powi (k + 1)"
  shows "pos_exponent x = k"
proof (rule ccontr)
  assume ne: "pos_exponent x \<noteq> k"
  from pos_exponent_bounds [OF assms(1)]
  have b: "2 powi pos_exponent x \<le> x" "x < 2 powi (pos_exponent x + 1)" by simp_all
  show False
  proof (cases "pos_exponent x < k")
    case True
    then have "(2::real) powi (pos_exponent x + 1) \<le> 2 powi k"
      by (intro power_int_increasing) simp_all
    with b(2) assms(2) show False by linarith
  next
    case False
    with ne have "k + 1 \<le> pos_exponent x" by simp
    then have "(2::real) powi (k + 1) \<le> 2 powi pos_exponent x"
      by (intro power_int_increasing) simp_all
    with b(1) assms(3) show False by linarith
  qed
qed

lemma pos_exponent_mono:
  assumes "0 < x" and "x \<le> y"
  shows "pos_exponent x \<le> pos_exponent y"
proof (rule ccontr)
  assume "\<not> pos_exponent x \<le> pos_exponent y"
  then have "pos_exponent y + 1 \<le> pos_exponent x" by simp
  then have "(2::real) powi (pos_exponent y + 1) \<le> 2 powi pos_exponent x"
    by (intro power_int_increasing) simp_all
  moreover have "2 powi pos_exponent x \<le> x" using pos_exponent_bounds [OF assms(1)] by simp
  moreover have "y < 2 powi (pos_exponent y + 1)"
    using pos_exponent_bounds [of y] assms by simp
  ultimately show False using assms(2) by linarith
qed

lemma ulp_exponent_minus: "ulp_exponent (- x) = ulp_exponent x"
  by (simp add: ulp_exponent_def)

lemma round_to_grid_minus: "round_to_grid (- x) = - round_to_grid x"
  by (simp add: round_to_grid_def ulp_exponent_minus round_half_even_minus)

lemma round_to_grid_zero [simp]: "round_to_grid 0 = 0"
  using round_half_even_of_int [of 0] by (simp add: round_to_grid_def del: round_half_even_of_int)

lemma round_to_grid_nonneg:
  assumes "0 \<le> x"
  shows "0 \<le> round_to_grid x"
proof -
  have "0 \<le> x / 2 powi ulp_exponent x" using assms by simp
  then have "round_half_even 0 \<le> round_half_even (x / 2 powi ulp_exponent x)"
    by (rule round_half_even_mono)
  moreover have "round_half_even 0 = 0" using round_half_even_of_int [of 0] by simp
  ultimately show ?thesis by (simp add: round_to_grid_def)
qed

lemma pow2_split52: "2 ^ 52 * 2 powi (e - 52) = (2::real) powi e"
proof -
  have "e = 52 + (e - 52)" by simp
  then have "(2::real) powi e = 2 powi (52 + (e - 52))" by (rule arg_cong)
  also have "\<dots> = 2 powi 52 * 2 powi (e - 52)" by (rule power_int_add) simp
  finally show ?thesis by simp
qed

lemma pow2_split53: "2 ^ 53 * 2 powi (e - 52) = (2::real) powi (e + 1)"
proof -
  have "e + 1 = 53 + (e - 52)" by simp
  then have "(2::real) powi (e + 1) = 2 powi (53 + (e - 52))" by (rule arg_cong)
  also have "\<dots> = 2 powi 53 * 2 powi (e - 52)" by (rule power_int_add) simp
  finally show ?thesis by simp
qed

lemma of_int_le_pow2: "n \<le> 2 ^ k \<Longrightarrow> real_of_int n \<le> 2 ^ k"
  by (metis of_int_le_iff of_int_numeral of_int_power)

lemma of_int_ge_pow2: "2 ^ k \<le> n \<Longrightarrow> 2 ^ k \<le> real_of_int n"
  by (metis of_int_le_iff of_int_numeral of_int_power)

lemma of_int_less_pow2: "n < 2 ^ k \<Longrightarrow> real_of_int n < 2 ^ k"
  by (metis of_int_less_iff of_int_numeral of_int_power)

lemma scaled_upper:
  assumes "0 < x"
  shows "x / 2 powi ulp_exponent x < 2 ^ 53"
proof -
  let ?e = "max (pos_exponent x) (- 1022)"
  have u: "ulp_exponent x = ?e - 52" using assms by (simp add: ulp_exponent_def)
  have "x < 2 powi (pos_exponent x + 1)" using pos_exponent_bounds [OF assms] by simp
  also have "\<dots> \<le> 2 powi (?e + 1)" by (intro power_int_increasing) simp_all
  also have "\<dots> = 2 ^ 53 * 2 powi (?e - 52)"
    by (rule pow2_split53 [symmetric])
  finally show ?thesis unfolding u by (simp add: pos_divide_less_eq)
qed

lemma scaled_lower:
  assumes "0 < x" and "- 1022 \<le> pos_exponent x"
  shows "2 ^ 52 \<le> x / 2 powi ulp_exponent x"
proof -
  have u: "ulp_exponent x = pos_exponent x - 52" using assms by (simp add: ulp_exponent_def)
  have "2 ^ 52 * 2 powi (pos_exponent x - 52) = (2::real) powi pos_exponent x"
    by (rule pow2_split52)
  also have "\<dots> \<le> x" using pos_exponent_bounds [OF assms(1)] by simp
  finally show ?thesis unfolding u by (simp add: pos_le_divide_eq)
qed

lemma grid_upper:
  assumes "0 < x"
  shows "round_to_grid x \<le> 2 powi (max (pos_exponent x) (- 1022) + 1)"
proof -
  let ?e = "max (pos_exponent x) (- 1022)"
  have u: "ulp_exponent x = ?e - 52" using assms by (simp add: ulp_exponent_def)
  have "round_half_even (x / 2 powi ulp_exponent x) \<le> round_half_even (of_int (2 ^ 53))"
    using scaled_upper [OF assms] by (intro round_half_even_mono) simp
  then have "round_half_even (x / 2 powi ulp_exponent x) \<le> 2 ^ 53"
    by (simp only: round_half_even_of_int)
  then have "real_of_int (round_half_even (x / 2 powi ulp_exponent x)) \<le> 2 ^ 53"
    by (rule of_int_le_pow2)
  then have "round_to_grid x \<le> 2 ^ 53 * 2 powi (?e - 52)"
    unfolding round_to_grid_def u by (intro mult_right_mono) simp_all
  also have "\<dots> = 2 powi (?e + 1)"
    by (rule pow2_split53)
  finally show ?thesis .
qed

lemma grid_lower:
  assumes "0 < x" and "- 1022 \<le> pos_exponent x"
  shows "2 powi pos_exponent x \<le> round_to_grid x"
proof -
  have u: "ulp_exponent x = pos_exponent x - 52" using assms by (simp add: ulp_exponent_def)
  have "round_half_even (of_int (2 ^ 52)) \<le> round_half_even (x / 2 powi ulp_exponent x)"
    using scaled_lower [OF assms] by (intro round_half_even_mono) simp
  then have "2 ^ 52 \<le> round_half_even (x / 2 powi ulp_exponent x)"
    by (simp only: round_half_even_of_int)
  then have "2 ^ 52 \<le> real_of_int (round_half_even (x / 2 powi ulp_exponent x))"
    by (rule of_int_ge_pow2)
  then have "2 ^ 52 * 2 powi (pos_exponent x - 52) \<le> round_to_grid x"
    unfolding round_to_grid_def u by (intro mult_right_mono) simp_all
  moreover have "2 ^ 52 * 2 powi (pos_exponent x - 52) = (2::real) powi pos_exponent x"
    by (rule pow2_split52)
  ultimately show ?thesis by simp
qed

lemma round_to_grid_mono_pos:
  assumes "0 < x" and "x \<le> y"
  shows "round_to_grid x \<le> round_to_grid y"
proof -
  have y: "0 < y" using assms by linarith
  let ?ex = "max (pos_exponent x) (- 1022)" and ?ey = "max (pos_exponent y) (- 1022)"
  have pe: "pos_exponent x \<le> pos_exponent y" using assms by (rule pos_exponent_mono)
  show ?thesis
  proof (cases "?ex = ?ey")
    case True
    then have u: "ulp_exponent x = ulp_exponent y"
      using assms y by (simp add: ulp_exponent_def)
    have "x / 2 powi ulp_exponent y \<le> y / 2 powi ulp_exponent y"
      using assms(2) by (simp add: divide_right_mono)
    then have "round_half_even (x / 2 powi ulp_exponent y)
                 \<le> round_half_even (y / 2 powi ulp_exponent y)"
      by (rule round_half_even_mono)
    then show ?thesis unfolding round_to_grid_def u
      by (intro mult_right_mono) simp_all
  next
    case False
    with pe have lt: "?ex < ?ey" by linarith
    then have unclipped: "- 1022 \<le> pos_exponent y" and ey: "?ey = pos_exponent y" by linarith+
    have "round_to_grid x \<le> 2 powi (?ex + 1)" using assms(1) by (rule grid_upper)
    also have "\<dots> \<le> 2 powi pos_exponent y"
    proof (rule power_int_increasing)
      show "?ex + 1 \<le> pos_exponent y" using lt ey by linarith
    qed simp
    also have "\<dots> \<le> round_to_grid y" using y unclipped by (rule grid_lower)
    finally show ?thesis .
  qed
qed

lemma round_to_grid_mono:
  assumes "x \<le> y"
  shows "round_to_grid x \<le> round_to_grid y"
proof -
  consider "0 < x" | "x \<le> 0" "0 \<le> y" | "y < 0" by linarith
  then show ?thesis
  proof cases
    case 1
    then show ?thesis using assms by (rule round_to_grid_mono_pos)
  next
    case 2
    have "round_to_grid x \<le> 0"
      using round_to_grid_nonneg [of "- x"] 2(1) by (simp add: round_to_grid_minus)
    moreover have "0 \<le> round_to_grid y" using 2(2) by (rule round_to_grid_nonneg)
    ultimately show ?thesis by linarith
  next
    case 3
    then have "0 < - y" "- y \<le> - x" using assms by simp_all
    then have "round_to_grid (- y) \<le> round_to_grid (- x)" by (rule round_to_grid_mono_pos)
    then show ?thesis by (simp add: round_to_grid_minus)
  qed
qed

lemma grid_point_fixed:
  assumes "- 1022 \<le> k" and "0 < n" and "n \<le> 2 ^ 53" and "2 ^ 52 \<le> n \<or> k = - 1022"
  shows "round_to_grid (of_int n * 2 powi (k - 52)) = of_int n * 2 powi (k - 52)"
proof -
  let ?v = "real_of_int n * 2 powi (k - 52)"
  have v: "0 < ?v" using assms(2) by simp
  have p52: "2 ^ 52 * 2 powi (k - 52) = (2::real) powi k"
    by (rule pow2_split52)
  have p53: "2 ^ 53 * 2 powi (k - 52) = (2::real) powi (k + 1)"
    by (rule pow2_split53)
  consider "n = 2 ^ 53" | "2 ^ 52 \<le> n" "n < 2 ^ 53" | "n < 2 ^ 52" "k = - 1022"
    using assms(3,4) by linarith
  then show ?thesis
  proof cases
    case 1
    then have v1: "?v = 2 powi (k + 1)" using p53 by simp
    have "pos_exponent (2 powi (k + 1)) = k + 1"
      by (rule pos_exponent_unique) (simp_all add: power_int_strict_increasing)
    then have "ulp_exponent ?v = k + 1 - 52" using assms(1) by (simp add: v1 ulp_exponent_def)
    moreover have split: "2 ^ 52 * 2 powi (k + 1 - 52) = (2::real) powi (k + 1)"
      by (rule pow2_split52)
    moreover have "(2::real) powi (k + 1) / 2 powi (k + 1 - 52) = of_int (2 ^ 52)"
      unfolding split [symmetric] by simp
    ultimately show ?thesis
      unfolding round_to_grid_def v1 by (simp only: round_half_even_of_int) simp
  next
    case 2
    have "2 ^ 52 \<le> real_of_int n" "real_of_int n < 2 ^ 53"
      using 2 by (simp_all add: of_int_ge_pow2 of_int_less_pow2)
    then have "2 powi k \<le> ?v" "?v < 2 powi (k + 1)"
      unfolding p52 [symmetric] p53 [symmetric] by (simp_all add: mult_right_mono)
    then have "pos_exponent ?v = k" using v by (intro pos_exponent_unique)
    then have u: "ulp_exponent ?v = k - 52" using assms(1) v by (simp add: ulp_exponent_def)
    show ?thesis unfolding round_to_grid_def u by simp
  next
    case 3
    have "real_of_int n < 2 ^ 52" using 3(1) by (rule of_int_less_pow2)
    then have lt: "?v < 2 powi k" unfolding p52 [symmetric] by simp
    have "pos_exponent ?v < k"
    proof (rule ccontr)
      assume "\<not> pos_exponent ?v < k"
      then have "(2::real) powi k \<le> 2 powi pos_exponent ?v"
        by (intro power_int_increasing) simp_all
      moreover have "2 powi pos_exponent ?v \<le> ?v" using pos_exponent_bounds [OF v] by simp
      ultimately show False using lt by linarith
    qed
    then have u: "ulp_exponent ?v = k - 52" using 3(2) v by (simp add: ulp_exponent_def)
    show ?thesis unfolding round_to_grid_def u by simp
  qed
qed

lemma round_to_grid_idem_pos:
  assumes "0 < x"
  shows "round_to_grid (round_to_grid x) = round_to_grid x"
proof -
  let ?e = "max (pos_exponent x) (- 1022)"
  let ?n = "round_half_even (x / 2 powi ulp_exponent x)"
  have u: "ulp_exponent x = ?e - 52" using assms by (simp add: ulp_exponent_def)
  have g: "round_to_grid x = of_int ?n * 2 powi (?e - 52)"
    by (simp add: round_to_grid_def u)
  have n0: "0 \<le> ?n"
    using round_half_even_mono [of 0 "x / 2 powi ulp_exponent x"] assms
      round_half_even_of_int [of 0] by simp
  have "?n \<le> round_half_even (of_int (2 ^ 53))"
    using scaled_upper [OF assms] by (intro round_half_even_mono) simp
  then have n53: "?n \<le> 2 ^ 53" by (simp only: round_half_even_of_int)
  show ?thesis
  proof (cases "?n = 0")
    case True
    then show ?thesis by (simp add: g)
  next
    case False
    then have npos: "0 < ?n" using n0 by linarith
    have "2 ^ 52 \<le> ?n \<or> ?e = - 1022"
    proof (cases "?e = - 1022")
      case False
      then have unclipped: "- 1022 \<le> pos_exponent x" by linarith
      have "round_half_even (of_int (2 ^ 52)) \<le> ?n"
        using scaled_lower [OF assms unclipped] by (intro round_half_even_mono) simp
      then show ?thesis by (simp only: round_half_even_of_int) simp
    qed simp
    then show ?thesis
      unfolding g using npos n53 by (intro grid_point_fixed) simp_all
  qed
qed

lemma round_to_grid_idem: "round_to_grid (round_to_grid x) = round_to_grid x"
proof -
  consider "0 < x" | "x = 0" | "x < 0" by linarith
  then show ?thesis
  proof cases
    case 1
    then show ?thesis by (rule round_to_grid_idem_pos)
  next
    case 2
    then show ?thesis by simp
  next
    case 3
    then have "round_to_grid (round_to_grid (- x)) = round_to_grid (- x)"
      by (intro round_to_grid_idem_pos) simp
    then show ?thesis by (simp add: round_to_grid_minus)
  qed
qed

section \<open>Properties of timing.py\<close>

lemma round_double_Finite:
  "round_double x = Finite r \<longleftrightarrow>
     r = round_to_grid x \<and> round_to_grid x < 2 powi 1024 \<and> - (2 powi 1024) < round_to_grid x"
  by (auto simp: round_double_def Let_def)

lemma is_double_iff:
  "is_double x \<longleftrightarrow> round_to_grid x = x \<and> x < 2 powi 1024 \<and> - (2 powi 1024) < x"
  by (auto simp: is_double_def round_double_Finite)

lemma round_double_is_double:
  assumes "round_double x = Finite r"
  shows "is_double r"
  using assms by (simp add: round_double_Finite is_double_iff round_to_grid_idem)

lemma round_double_mono:
  assumes "is_double a" and "a \<le> y" and "round_double y = Finite n"
  shows "a \<le> n"
proof -
  have "round_to_grid a \<le> round_to_grid y" using assms(2) by (rule round_to_grid_mono)
  then show ?thesis using assms(1,3) by (simp add: round_double_Finite is_double_iff)
qed

lemma refine_loop_trace:
  assumes "refine_loop iv dur acc cur = Some out"
  shows "\<exists>rest. out = acc @ rest \<and> grid_from iv dur cur rest"
proof (rule refine_loop.raw_induct
    [where P = "\<lambda>iv dur acc cur out. \<exists>rest. out = acc @ rest \<and> grid_from iv dur cur rest",
      OF _ assms])
  fix f :: "xfloat \<Rightarrow> real \<Rightarrow> real list \<Rightarrow> real \<Rightarrow> real list option"
  fix iv dur acc cur out
  assume IH: "\<And>iv dur acc cur out. f iv dur acc cur = Some out \<Longrightarrow>
                \<exists>rest. out = acc @ rest \<and> grid_from iv dur cur rest"
    and step: "(if cur \<le> dur
                then case float_add cur iv of
                       Finite next_time \<Rightarrow> f iv dur (acc @ [cur]) next_time
                     | PosInf \<Rightarrow> Some (acc @ [cur])
                     | NegInf \<Rightarrow> None
                else Some acc) = Some out"
  show "\<exists>rest. out = acc @ rest \<and> grid_from iv dur cur rest"
  proof (cases "cur \<le> dur")
    case False
    then show ?thesis using step by simp
  next
    case True
    show ?thesis
    proof (cases "float_add cur iv")
      case (Finite n)
      then have "f iv dur (acc @ [cur]) n = Some out"
        using step True by simp
      from IH [OF this] obtain rest where "out = (acc @ [cur]) @ rest" "grid_from iv dur n rest"
        by blast
      then show ?thesis using True Finite by (intro exI [of _ "cur # rest"]) simp
    next
      case PosInf
      then show ?thesis using step True by (intro exI [of _ "[cur]"]) auto
    next
      case NegInf
      then show ?thesis using step True by simp
    qed
  qed
qed

lemma grid_from_refine_loop:
  "grid_from iv dur cur rest \<Longrightarrow> refine_loop iv dur acc cur = Some (acc @ rest)"
proof (induction rest arbitrary: cur acc)
  case Nil
  then show ?case by (subst refine_loop.simps) simp
next
  case (Cons x rest)
  then have x: "x = cur" and le: "cur \<le> dur" by simp_all
  show ?case
  proof (cases "float_add cur iv")
    case (Finite n)
    then have "grid_from iv dur n rest" using Cons.prems by simp
    from Cons.IH [OF this, of "acc @ [cur]"] show ?thesis
      using le Finite x by (subst refine_loop.simps) simp
  next
    case PosInf
    then show ?thesis using Cons.prems le x by (subst refine_loop.simps) simp
  next
    case NegInf
    then show ?thesis using Cons.prems by simp
  qed
qed

lemma grid_from_stuck:
  assumes "cur \<le> dur" and "float_add cur iv = Finite cur"
  shows "\<not> grid_from iv dur cur xs"
  using assms by (induction xs) auto

lemma grid_from_increasing:
  assumes "is_double cur" and "iv = PosInf \<or> (\<exists>i. iv = Finite i \<and> 0 \<le> i)"
      and "grid_from iv dur cur xs"
  shows "sorted_wrt (<) xs \<and> (\<forall>x \<in> set xs. cur \<le> x \<and> x \<le> dur)"
  using assms(1,3)
proof (induction xs arbitrary: cur)
  case Nil
  show ?case by simp
next
  case (Cons x xs)
  then have x: "x = cur" and le: "cur \<le> dur" by simp_all
  show ?case
  proof (cases "float_add cur iv")
    case (Finite n)
    then have g: "grid_from iv dur n xs" using Cons.prems by simp
    from Finite obtain i where i: "iv = Finite i" "0 \<le> i" "round_double (cur + i) = Finite n"
      using assms(2) by (auto simp: float_add_def)
    have dn: "is_double n" using i(3) by (rule round_double_is_double)
    have "cur \<le> cur + i" using i(2) by simp
    with Cons.prems(1) have "cur \<le> n" using i(3) by (rule round_double_mono)
    moreover have "n \<noteq> cur"
    proof
      assume "n = cur"
      then have "float_add cur iv = Finite cur" using Finite by simp
      with le have "\<not> grid_from iv dur cur xs" by (rule grid_from_stuck)
      then show False using g \<open>n = cur\<close> by simp
    qed
    ultimately have lt: "cur < n" by simp
    from Cons.IH [OF dn g] have "sorted_wrt (<) xs" "\<forall>y \<in> set xs. n \<le> y \<and> y \<le> dur" by simp_all
    then show ?thesis using lt le x by auto
  next
    case PosInf
    then show ?thesis using Cons.prems le x by simp
  next
    case NegInf
    then show ?thesis using Cons.prems by simp
  qed
qed

lemma grid_from_step:
  "grid_from iv dur cur xs \<Longrightarrow> Suc k < length xs \<Longrightarrow>
   float_add (xs ! k) iv = Finite (xs ! Suc k)"
proof (induction xs arbitrary: cur k)
  case Nil
  then show ?case by simp
next
  case (Cons x xs)
  then have x: "x = cur" by simp
  from Cons.prems(2) obtain y ys where xs: "xs = y # ys" by (cases xs) auto
  show ?case
  proof (cases "float_add cur iv")
    case (Finite n)
    then have g: "grid_from iv dur n xs" using Cons.prems by simp
    then have "y = n" using xs by simp
    show ?thesis
    proof (cases k)
      case 0
      then show ?thesis using Finite x xs \<open>y = n\<close> by simp
    next
      case (Suc j)
      then show ?thesis using Cons.IH [OF g, of j] Cons.prems(2) by simp
    qed
  next
    case PosInf
    then show ?thesis using Cons.prems xs by simp
  next
    case NegInf
    then show ?thesis using Cons.prems by simp
  qed
qed

lemma grid_from_last:
  "grid_from iv dur cur xs \<Longrightarrow> xs \<noteq> [] \<Longrightarrow>
   float_add (last xs) iv = PosInf \<or> (\<exists>n. float_add (last xs) iv = Finite n \<and> dur < n)"
proof (induction xs arbitrary: cur)
  case Nil
  then show ?case by simp
next
  case (Cons x xs)
  then have x: "x = cur" by simp
  show ?case
  proof (cases "float_add cur iv")
    case (Finite n)
    then have g: "grid_from iv dur n xs" using Cons.prems by simp
    show ?thesis
    proof (cases "xs = []")
      case True
      then show ?thesis using g Finite x by simp
    next
      case False
      then show ?thesis using Cons.IH [OF g False] by simp
    qed
  next
    case PosInf
    then show ?thesis using Cons.prems x by simp
  next
    case NegInf
    then show ?thesis using Cons.prems by simp
  qed
qed

lemma interval_nonneg:
  assumes "0 < tempo"
  shows "round_double (60 / tempo) = PosInf
         \<or> (\<exists>i. round_double (60 / tempo) = Finite i \<and> 0 \<le> i)"
proof -
  have "0 \<le> round_to_grid (60 / tempo)" using assms by (intro round_to_grid_nonneg) simp
  then show ?thesis by (auto simp: round_double_def Let_def)
qed

lemma round_to_grid_error:
  "\<bar>round_to_grid y - y\<bar> \<le> 2 powi ulp_exponent y / 2"
proof -
  let ?u = "(2::real) powi ulp_exponent y"
  have u: "0 < ?u" by simp
  have "\<bar>of_int (round_half_even (y / ?u)) - y / ?u\<bar> \<le> 1 / 2"
    by (rule round_half_even_error)
  then have "\<bar>of_int (round_half_even (y / ?u)) - y / ?u\<bar> * ?u \<le> 1 / 2 * ?u"
    using u by (intro mult_right_mono) simp_all
  moreover have "\<bar>of_int (round_half_even (y / ?u)) - y / ?u\<bar> * ?u
                   = \<bar>round_to_grid y - y\<bar>"
  proof -
    have "\<bar>of_int (round_half_even (y / ?u)) - y / ?u\<bar> * ?u
            = \<bar>(of_int (round_half_even (y / ?u)) - y / ?u) * ?u\<bar>"
      using u by (simp add: abs_mult)
    also have "(of_int (round_half_even (y / ?u)) - y / ?u) * ?u = round_to_grid y - y"
      using u by (simp add: round_to_grid_def left_diff_distrib)
    finally show ?thesis .
  qed
  ultimately show ?thesis by simp
qed

lemma ulp_bound:
  assumes "y \<noteq> 0"
  shows "2 powi ulp_exponent y \<le> \<bar>y\<bar> * 2 powi (- 52) + 2 powi (- 1074)"
proof (cases "- 1022 \<le> pos_exponent \<bar>y\<bar>")
  case True
  then have u: "ulp_exponent y = pos_exponent \<bar>y\<bar> + (- 52)" by (simp add: ulp_exponent_def)
  have "(2::real) powi ulp_exponent y = 2 powi pos_exponent \<bar>y\<bar> * 2 powi (- 52)"
    unfolding u by (rule power_int_add) simp
  also have "\<dots> \<le> \<bar>y\<bar> * 2 powi (- 52)"
    using pos_exponent_bounds [of "\<bar>y\<bar>"] assms by (intro mult_right_mono) simp_all
  also have "\<dots> \<le> \<bar>y\<bar> * 2 powi (- 52) + 2 powi (- 1074)" by simp
  finally show ?thesis .
next
  case False
  then have "ulp_exponent y = - 1074" by (simp add: ulp_exponent_def)
  then show ?thesis by simp
qed

lemma round_to_grid_lower:
  "y - (\<bar>y\<bar> * 2 powi (- 53) + 2 powi (- 1075)) \<le> round_to_grid y"
proof (cases "y = 0")
  case True
  then show ?thesis by simp
next
  case False
  have half52: "(2::real) powi (- 52) / 2 = 2 powi (- 53)"
    and half1074: "(2::real) powi (- 1074) / 2 = 2 powi (- 1075)"
    by (simp_all add: power_int_minus field_simps)
  have "\<bar>round_to_grid y - y\<bar> \<le> 2 powi ulp_exponent y / 2" by (rule round_to_grid_error)
  also have "\<dots> \<le> (\<bar>y\<bar> * 2 powi (- 52) + 2 powi (- 1074)) / 2"
    using ulp_bound [OF False] by (simp add: divide_right_mono)
  also have "\<dots> = \<bar>y\<bar> * 2 powi (- 53) + 2 powi (- 1075)"
    using half52 half1074 by (simp add: add_divide_distrib)
  finally show ?thesis by linarith
qed

lemma positive_double_min:
  assumes "is_double i" and "0 < i"
  shows "2 powi (- 1074) \<le> i"
proof -
  let ?u = "(2::real) powi ulp_exponent i"
  let ?n = "round_half_even (i / ?u)"
  have gi: "of_int ?n * ?u = i" using assms(1) by (simp add: is_double_iff round_to_grid_def)
  have "0 < real_of_int ?n * ?u" using gi assms(2) by simp
  moreover have "0 < ?u" by simp
  ultimately have "0 < real_of_int ?n" by (simp add: zero_less_mult_iff)
  then have "1 \<le> ?n" by linarith
  then have "1 \<le> real_of_int ?n" by linarith
  then have "1 * ?u \<le> real_of_int ?n * ?u" by (intro mult_right_mono) simp_all
  then have "?u \<le> i" using gi by simp
  moreover have "(2::real) powi (- 1074) \<le> ?u"
    by (intro power_int_increasing) (simp_all add: ulp_exponent_def)
  ultimately show ?thesis by linarith
qed

lemma below_pow_1023:
  assumes "z < 2 powi 1023"
  shows "round_to_grid z < 2 powi 1024"
proof (cases "0 < z")
  case True
  have "pos_exponent z < 1023"
  proof (rule ccontr)
    assume "\<not> pos_exponent z < 1023"
    then have "(2::real) powi 1023 \<le> 2 powi pos_exponent z"
      by (intro power_int_increasing) simp_all
    moreover have "2 powi pos_exponent z \<le> z" using pos_exponent_bounds [OF True] by simp
    ultimately show False using assms by linarith
  qed
  then have "max (pos_exponent z) (- 1022) + 1 \<le> 1023" by simp
  then have "(2::real) powi (max (pos_exponent z) (- 1022) + 1) \<le> 2 powi 1023"
    by (intro power_int_increasing) simp_all
  moreover have "round_to_grid z \<le> 2 powi (max (pos_exponent z) (- 1022) + 1)"
    using True by (rule grid_upper)
  moreover have "(2::real) powi 1023 < 2 powi 1024"
    by (intro power_int_strict_increasing) simp_all
  ultimately show ?thesis by linarith
next
  case False
  then have "round_to_grid z \<le> 0"
    using round_to_grid_nonneg [of "- z"] by (simp add: round_to_grid_minus)
  moreover have "(0::real) < 2 powi 1024" by simp
  ultimately show ?thesis by linarith
qed

lemma grid_from_exists:
  assumes i: "0 < i" "is_double i"
      and small: "(M + i) * 2 powi (- 51) \<le> i"
      and big: "M + i < 2 powi 1023"
      and M: "\<bar>start\<bar> \<le> M" "\<bar>dur\<bar> \<le> M"
  shows "is_double cur \<Longrightarrow> start \<le> cur \<Longrightarrow> dur - cur < real k * (i / 4) \<Longrightarrow>
         \<exists>rest. grid_from (Finite i) dur cur rest"
proof (induction k arbitrary: cur)
  case 0
  then have "\<not> cur \<le> dur" by simp
  then have "grid_from (Finite i) dur cur []" by simp
  then show ?case by blast
next
  case (Suc k)
  show ?case
  proof (cases "cur \<le> dur")
    case False
    then have "grid_from (Finite i) dur cur []" by simp
    then show ?thesis by blast
  next
    case True
    let ?y = "cur + i"
    let ?n = "round_to_grid ?y"
    have absy: "\<bar>?y\<bar> \<le> M + i" using True Suc.prems(2) M i(1) by linarith
    have q: "(M + i) * 2 powi (- 53) \<le> i / 4"
    proof -
      have "(2::real) powi (- 53) = 2 powi (- 51) / 4" by (simp add: power_int_minus field_simps)
      then show ?thesis using small by simp
    qed
    have "\<bar>?y\<bar> * 2 powi (- 53) \<le> (M + i) * 2 powi (- 53)"
      using absy by (intro mult_right_mono) simp_all
    moreover have "(2::real) powi (- 1075) \<le> i / 2"
    proof -
      have "(2::real) powi (- 1075) = 2 powi (- 1074) / 2" by (simp add: power_int_minus field_simps)
      then show ?thesis using positive_double_min [OF i(2,1)] by simp
    qed
    moreover have "?y - (\<bar>?y\<bar> * 2 powi (- 53) + 2 powi (- 1075)) \<le> ?n"
      by (rule round_to_grid_lower)
    ultimately have adv: "cur + i / 4 \<le> ?n" using q by linarith
    have "?y < 2 powi 1023" using absy big by linarith
    then have up: "?n < 2 powi 1024" by (rule below_pow_1023)
    have "- (2 powi 1024) < cur" using Suc.prems(1) by (simp add: is_double_iff)
    then have lo: "- (2 powi 1024) < ?n" using adv i(1) by linarith
    have rd: "round_double ?y = Finite ?n" using up lo by (simp add: round_double_Finite)
    then have dn: "is_double ?n" by (rule round_double_is_double)
    have "start \<le> ?n" using Suc.prems(2) adv i(1) by linarith
    moreover have "dur - ?n < real k * (i / 4)"
    proof -
      have "real (Suc k) * (i / 4) = real k * (i / 4) + i / 4" by (simp add: algebra_simps)
      then show ?thesis using Suc.prems(3) adv by linarith
    qed
    ultimately obtain rest where "grid_from (Finite i) dur ?n rest"
      using Suc.IH [OF dn] by blast
    then have "grid_from (Finite i) dur cur (cur # rest)"
      using True rd by (simp add: float_add_def)
    then show ?thesis by blast
  qed
qed

lemma refine_beat_grid_returns:
  assumes "tempo \<noteq> 0" and "beat_times \<noteq> []" and "is_double (hd beat_times)"
      and "round_double (60 / tempo) = Finite i" and "0 < i"
      and "(max \<bar>hd beat_times\<bar> \<bar>duration\<bar> + i) * 2 powi (- 51) \<le> i"
      and "max \<bar>hd beat_times\<bar> \<bar>duration\<bar> + i < 2 powi 1023"
  shows "\<exists>out. refine_beat_grid beat_times tempo duration = Some (Inr out)"
proof -
  obtain start rest where bt: "beat_times = start # rest"
    using assms(2) by (cases beat_times) auto
  have di: "is_double i" using assms(4) by (rule round_double_is_double)
  have "0 < i / 4" using assms(5) by simp
  then have "\<forall>y. \<exists>n. y < real n * (i / 4)" by (rule reals_Archimedean3)
  then obtain k :: nat where "duration - start < real k * (i / 4)" by blast
  then have "\<exists>xs. grid_from (Finite i) duration start xs"
  proof (rule grid_from_exists
      [where M = "max \<bar>start\<bar> \<bar>duration\<bar>" and start = start and k = k, rotated -1])
    show "0 < i" by (rule assms(5))
    show "is_double i" by (rule di)
    show "(max \<bar>start\<bar> \<bar>duration\<bar> + i) * 2 powi (- 51) \<le> i"
      using assms(6) by (simp add: bt)
    show "max \<bar>start\<bar> \<bar>duration\<bar> + i < 2 powi 1023"
      using assms(7) by (simp add: bt)
    show "\<bar>start\<bar> \<le> max \<bar>start\<bar> \<bar>duration\<bar>" by simp
    show "\<bar>duration\<bar> \<le> max \<bar>start\<bar> \<bar>duration\<bar>" by simp
    show "is_double start" using assms(3) by (simp add: bt)
    show "start \<le> start" by simp
  qed
  then obtain xs where "grid_from (Finite i) duration start xs" by blast
  then have "refine_loop (Finite i) duration [] start = Some xs"
    using grid_from_refine_loop [of "Finite i" duration start xs "[]"] by simp
  then show ?thesis using assms(1,4) by (simp add: refine_beat_grid_def bt)
qed

lemma refine_beat_grid_trace:
  assumes "0 < tempo" and "beat_times \<noteq> []" and "hd beat_times \<le> duration"
      and "is_double (hd beat_times)"
      and "refine_beat_grid beat_times tempo duration = Some (Inr out)"
  shows "out \<noteq> [] \<and> hd out = hd beat_times
         \<and> sorted_wrt (<) out
         \<and> (\<forall>x \<in> set out. x \<le> duration)
         \<and> (\<forall>k. Suc k < length out \<longrightarrow>
                float_add (out ! k) (round_double (60 / tempo)) = Finite (out ! Suc k))
         \<and> (float_add (last out) (round_double (60 / tempo)) = PosInf
              \<or> (\<exists>n. float_add (last out) (round_double (60 / tempo)) = Finite n
                       \<and> duration < n))"
proof -
  let ?iv = "round_double (60 / tempo)"
  obtain start rest where bt: "beat_times = start # rest"
    using assms(2) by (cases beat_times) auto
  have "refine_loop ?iv duration [] start = Some out"
    using assms(1,5) by (auto simp: refine_beat_grid_def bt)
  then have g: "grid_from ?iv duration start out"
    using refine_loop_trace [of ?iv duration "[]" start out] by simp
  have le: "start \<le> duration" and ds: "is_double start" using assms(3,4) by (simp_all add: bt)
  have ne: "out \<noteq> []" and hd: "hd out = start" using g le by (cases out; simp)+
  have inc: "sorted_wrt (<) out \<and> (\<forall>x \<in> set out. start \<le> x \<and> x \<le> duration)"
    using ds interval_nonneg [OF assms(1)] g by (rule grid_from_increasing)
  have step: "\<forall>k. Suc k < length out \<longrightarrow> float_add (out ! k) ?iv = Finite (out ! Suc k)"
    using grid_from_step [OF g] by blast
  have last: "float_add (last out) ?iv = PosInf
              \<or> (\<exists>n. float_add (last out) ?iv = Finite n \<and> duration < n)"
    using g ne by (rule grid_from_last)
  show ?thesis using ne hd inc step last by (simp add: bt)
qed

lemma refine_beat_grid_no_error:
  assumes "0 < tempo"
  shows "refine_beat_grid beat_times tempo duration \<noteq> Some (Inl e)"
  using assms by (auto simp: refine_beat_grid_def split: list.splits)

text \<open>
  C4 (as amended). For a positive tempo, a nonempty beat list whose first beat is a
  double, and a duration not before the first beat: refine_beat_grid raises no error;
  whenever it returns, the result starts at the first detected beat, is strictly
  increasing, has every element at most the duration, each later element is the double
  sum of its predecessor and the double quotient 60/tempo, and the double sum after the
  last element exceeds the duration (or overflows), so no further beat fits; and it
  does return whenever that quotient i is positive and at least
  2^-51 (max(|first beat|, |duration|) + i), with max(|first beat|, |duration|) + i
  below 2^1023.
\<close>

theorem refine_beat_grid_rounded_grid:
  assumes "0 < tempo" and "beat_times \<noteq> []" and "hd beat_times \<le> duration"
      and "is_double (hd beat_times)"
  shows "(\<forall>out. refine_beat_grid beat_times tempo duration = Some (Inr out) \<longrightarrow>
            out \<noteq> [] \<and> hd out = hd beat_times
            \<and> sorted_wrt (<) out
            \<and> (\<forall>x \<in> set out. x \<le> duration)
            \<and> (\<forall>k. Suc k < length out \<longrightarrow>
                   float_add (out ! k) (round_double (60 / tempo)) = Finite (out ! Suc k))
            \<and> (float_add (last out) (round_double (60 / tempo)) = PosInf
                 \<or> (\<exists>n. float_add (last out) (round_double (60 / tempo)) = Finite n
                          \<and> duration < n)))
         \<and> (\<forall>i. round_double (60 / tempo) = Finite i \<and> 0 < i
                  \<and> (max \<bar>hd beat_times\<bar> \<bar>duration\<bar> + i) * 2 powi (- 51) \<le> i
                  \<and> max \<bar>hd beat_times\<bar> \<bar>duration\<bar> + i < 2 powi 1023 \<longrightarrow>
                (\<exists>out. refine_beat_grid beat_times tempo duration = Some (Inr out)))
         \<and> (\<forall>e. refine_beat_grid beat_times tempo duration \<noteq> Some (Inl e))"
proof (intro conjI allI impI)
  fix e
  show "refine_beat_grid beat_times tempo duration \<noteq> Some (Inl e)"
    using assms(1) by (rule refine_beat_grid_no_error)
next
  fix i
  assume c: "round_double (60 / tempo) = Finite i \<and> 0 < i
             \<and> (max \<bar>hd beat_times\<bar> \<bar>duration\<bar> + i) * 2 powi (- 51) \<le> i
             \<and> max \<bar>hd beat_times\<bar> \<bar>duration\<bar> + i < 2 powi 1023"
  have "tempo \<noteq> 0" using assms(1) by simp
  then show "\<exists>out. refine_beat_grid beat_times tempo duration = Some (Inr out)"
    using assms(2,4) c by (intro refine_beat_grid_returns [where i = i]) simp_all
next
  fix out
  assume r: "refine_beat_grid beat_times tempo duration = Some (Inr out)"
  note t = refine_beat_grid_trace [OF assms r]
  show "out \<noteq> []" using t by simp
  show "hd out = hd beat_times" using t by simp
  show "sorted_wrt (<) out" using t by simp
  show "\<forall>x \<in> set out. x \<le> duration" using t by simp
  show "float_add (last out) (round_double (60 / tempo)) = PosInf
        \<or> (\<exists>n. float_add (last out) (round_double (60 / tempo)) = Finite n \<and> duration < n)"
    using t by simp
  fix k
  assume "Suc k < length out"
  then show "float_add (out ! k) (round_double (60 / tempo)) = Finite (out ! Suc k)"
    using t by simp
qed

lemmas double_eval = refine_beat_grid_def refine_loop.simps float_add_def round_double_def
  round_to_grid_def ulp_exponent_def pos_exponent.simps round_half_even_def is_double_def Let_def

theorem refine_beat_grid_rounded_grid_witness:
  "(0::real) < 120 \<and> [1 / 4, 7 / 10, 13 / 10] \<noteq> ([]::real list)
   \<and> hd [1 / 4, 7 / 10, 13 / 10] \<le> (2::real) \<and> is_double (hd [1 / 4, 7 / 10, 13 / 10])
   \<and> round_double (60 / 120) = Finite (1 / 2)
   \<and> (max \<bar>hd [1 / 4, 7 / 10, 13 / 10]\<bar> \<bar>2\<bar> + 1 / 2) * 2 powi (- 51) \<le> (1 / 2 :: real)
   \<and> max \<bar>hd [1 / 4, 7 / 10, 13 / 10]\<bar> \<bar>2\<bar> + 1 / 2 < (2 powi 1023 :: real)
   \<and> refine_beat_grid [1 / 4, 7 / 10, 13 / 10] 120 2 = Some (Inr [1 / 4, 3 / 4, 5 / 4, 7 / 4])
   \<and> sorted_wrt (<) [1 / 4, 3 / 4, 5 / 4, 7 / 4 :: real]
   \<and> float_add (last [1 / 4, 3 / 4, 5 / 4, 7 / 4]) (round_double (60 / 120)) = Finite (9 / 4)"
proof -
  have r: "refine_beat_grid [1 / 4, 7 / 10, 13 / 10] 120 2 = Some (Inr [1 / 4, 3 / 4, 5 / 4, 7 / 4])"
    by (simp add: double_eval)
  have d: "is_double (hd [1 / 4, 7 / 10, 13 / 10])"
    by (simp add: double_eval)
  have i: "round_double (60 / 120) = Finite (1 / 2)"
    by (simp add: double_eval)
  have l: "float_add (last [1 / 4, 3 / 4, 5 / 4, 7 / 4]) (round_double (60 / 120)) = Finite (9 / 4)"
    by (simp add: double_eval)
  have c: "(max \<bar>hd [1 / 4, 7 / 10, 13 / 10]\<bar> \<bar>2\<bar> + 1 / 2) * 2 powi (- 51) \<le> (1 / 2 :: real)"
    "max \<bar>hd [1 / 4, 7 / 10, 13 / 10]\<bar> \<bar>2\<bar> + 1 / 2 < (2 powi 1023 :: real)"
    by simp_all
  have "sorted_wrt (<) [1 / 4, 3 / 4, 5 / 4, 7 / 4 :: real]"
    using refine_beat_grid_rounded_grid [of 120 "[1 / 4, 7 / 10, 13 / 10]" 2] r d by simp
  with r d i l c show ?thesis by simp
qed

text \<open>
  C4 as stated fails on the doubles the code computes with. At tempo 135 the quotient
  60/135 is not a double, and the rounded sums drift: for a first beat 0 and duration 4
  the loop returns nine beats, the last 3.5555555555555562, with unequal gaps, while
  the progression 0 + k 60/135 has a tenth term 4 within the duration. At tempo 10^18
  with first beat 1 and duration 2 the sum 1 + 6e-17 rounds back to 1 and the loop
  never returns.
\<close>

theorem refine_beat_grid_rounding_drift:
  "(0::real) < 135 \<and> [0] \<noteq> ([]::real list) \<and> hd [0] \<le> (4::real)
   \<and> refine_beat_grid [0] 135 4 =
       Some (Inr [0,
                  2001599834386887 / 4503599627370496,
                  2001599834386887 / 2251799813685248,
                  6004799503160661 / 4503599627370496,
                  2001599834386887 / 1125899906842624,
                  2501999792983609 / 1125899906842624,
                  3002399751580331 / 1125899906842624,
                  3502799710177053 / 1125899906842624,
                  4003199668773775 / 1125899906842624])
   \<and> (0::real) + 9 * (60 / 135) \<le> 4
   \<and> (2001599834386887 / 4503599627370496 :: real) \<noteq> 60 / 135
   \<and> (4003199668773775 / 1125899906842624 - 3502799710177053 / 1125899906842624 :: real)
       \<noteq> 2001599834386887 / 4503599627370496 - 0
   \<and> (0::real) < 10 ^ 18 \<and> hd [1] \<le> (2::real)
   \<and> refine_beat_grid [1] (10 ^ 18) 2 = None"
proof -
  have stall: "float_add 1 (round_double (60 / 10 ^ 18)) = Finite 1"
    by (simp add: double_eval)
  have "refine_loop (round_double (60 / 10 ^ 18)) 2 [] 1 = None"
  proof (cases "refine_loop (round_double (60 / 10 ^ 18)) 2 [] 1")
    case (Some out)
    then obtain rest where "grid_from (round_double (60 / 10 ^ 18)) 2 1 rest"
      using refine_loop_trace by blast
    moreover have "\<not> grid_from (round_double (60 / 10 ^ 18)) 2 1 rest"
      using stall by (intro grid_from_stuck) simp_all
    ultimately show ?thesis by simp
  qed simp
  then have none: "refine_beat_grid [1] (10 ^ 18) 2 = None"
    by (simp add: refine_beat_grid_def)
  have drift: "refine_beat_grid [0] 135 4 =
       Some (Inr [0,
                  2001599834386887 / 4503599627370496,
                  2001599834386887 / 2251799813685248,
                  6004799503160661 / 4503599627370496,
                  2001599834386887 / 1125899906842624,
                  2501999792983609 / 1125899906842624,
                  3002399751580331 / 1125899906842624,
                  3502799710177053 / 1125899906842624,
                  4003199668773775 / 1125899906842624])"
    by (simp add: double_eval)
  show ?thesis unfolding drift none by simp
qed

lemma refine_example:
  "refine_beat_grid [0, 1 / 2, 1, 3 / 2, 51 / 25] 120 3 = Some (Inr [0, 1 / 2, 1, 3 / 2, 2, 5 / 2, 3])"
  by (simp add: double_eval)

text \<open>
  C2. create_beat_grid returns the refined (regenerated) beat times together with the
  downbeats that detect_downbeats picked among the detected, unrefined beat times. For
  detected beats 0, 0.5, 1, 1.5, 2.04 at tempo 120 in a 3 second clip, 2.04 is a
  downbeat and is not one of the refined beat times.
\<close>

theorem create_beat_grid_stale_downbeat:
  "create_beat_grid 120 [0, 1 / 2, 1, 3 / 2, 51 / 25] 3 44100 =
     Some (Inr \<lparr>bg_tempo = 120, bg_beat_times = [0, 1 / 2, 1, 3 / 2, 2, 5 / 2, 3],
                bg_downbeat_times = [0, 51 / 25], bg_duration = 3, bg_total_beats = 7\<rparr>)
   \<and> \<not> set [0, 51 / 25] \<subseteq> set [0, 1 / 2, 1, 3 / 2, 2, 5 / 2, 3 :: real]"
  by (simp add: create_beat_grid_def analyze_tempo_and_beats_def detect_downbeats_def
      py_fmod_def Let_def refine_example)

section \<open>Properties of chords.py\<close>

text \<open>The list of events closed so far is only ever extended at its end.\<close>

lemma merge_loop_acc:
  "merge_loop merged cur rest = merged @ merge_loop [] cur rest"
proof (induction rest arbitrary: merged cur)
  case Nil
  show ?case by simp
next
  case (Cons x rest)
  obtain t l c where x: "x = (t, l, c)" by (cases x)
  show ?case
    using Cons.IH [of merged] Cons.IH [of "merged @ [cur]"] Cons.IH [of "[cur]"]
    by (simp add: x)
qed

lemma merge_loop_labels:
  "\<exists>tail. merge_loop [] cur rest = cur\<lparr>ce_confidence := ce_confidence (hd (merge_loop [] cur rest))\<rparr> # tail
          \<and> distinct_adj (map ce_label (merge_loop [] cur rest))"
proof (induction rest arbitrary: cur)
  case Nil
  show ?case by simp
next
  case (Cons x rest)
  obtain t l c where x: "x = (t, l, c)" by (cases x)
  show ?case
  proof (cases "l = ce_label cur")
    case True
    from Cons.IH [of "cur\<lparr>ce_confidence := max (ce_confidence cur) c\<rparr>"]
    show ?thesis using True by (auto simp: x)
  next
    case False
    let ?new = "\<lparr>ce_time = t, ce_label = l, ce_confidence = c\<rparr>"
    from Cons.IH [of ?new] obtain tail where
      tl: "merge_loop [] ?new rest = ?new\<lparr>ce_confidence := ce_confidence (hd (merge_loop [] ?new rest))\<rparr> # tail"
      and da: "distinct_adj (map ce_label (merge_loop [] ?new rest))" by blast
    have eq: "merge_loop [] cur (x # rest) = cur # merge_loop [] ?new rest"
      using False merge_loop_acc [of "[cur]" ?new rest] by (simp add: x)
    have "ce_label (hd (merge_loop [] ?new rest)) = l"
      by (subst tl) simp
    then have "distinct_adj (map ce_label (cur # merge_loop [] ?new rest))"
      using da False tl by (cases "merge_loop [] ?new rest") auto
    then show ?thesis using eq by simp
  qed
qed

lemma chord_event_rebuild:
  "\<lparr>ce_time = ce_time e, ce_label = ce_label e, ce_confidence = ce_confidence e\<rparr>
     = (e :: chord_event)"
  by (cases e) simp

lemma merge_loop_fixed:
  "distinct_adj (map ce_label (cur # evs)) \<Longrightarrow>
   merge_loop [] cur (map event_triple evs) = cur # evs"
proof (induction evs arbitrary: cur)
  case Nil
  show ?case by simp
next
  case (Cons e evs)
  then have ne: "ce_label e \<noteq> ce_label cur" and da: "distinct_adj (map ce_label (e # evs))"
    by auto
  have "merge_loop [] cur (map event_triple (e # evs))
          = merge_loop [cur] e (map event_triple evs)"
    using ne by (simp add: event_triple_def chord_event_rebuild)
  also have "\<dots> = cur # merge_loop [] e (map event_triple evs)"
    using merge_loop_acc [of "[cur]"] by simp
  finally show ?case using Cons.IH [OF da] by simp
qed

lemma zip_event_fields:
  "zip (map ce_time evs) (zip (map ce_label evs) (map ce_confidence evs)) = map event_triple evs"
  by (induction evs) (simp_all add: event_triple_def)

text \<open>A progression without equal adjacent labels is a fixed point of the merge.\<close>

lemma merge_consecutive_chords_fixed:
  assumes "distinct_adj (map ce_label evs)"
  shows "merge_consecutive_chords (map ce_time evs) (map ce_label evs) (map ce_confidence evs)
           = Inr evs"
proof (cases evs)
  case Nil
  then show ?thesis by (simp add: merge_consecutive_chords_def)
next
  case (Cons e rest)
  have "merge_loop [] e (map event_triple rest) = e # rest"
    using assms Cons merge_loop_fixed by simp
  then show ?thesis
    unfolding merge_consecutive_chords_def zip_event_fields
    by (simp add: Cons event_triple_def chord_event_rebuild)
qed

text \<open>
  C5. Whenever the label and confidence lists are at least as long as the time list,
  merge_consecutive_chords returns a progression in which no two adjacent events share a
  label, and merging the times, labels and confidences of that progression again
  returns the same progression.
\<close>

theorem merge_consecutive_chords_idempotent:
  assumes "length times_in \<le> length labels" and "length times_in \<le> length confidences"
  shows "\<exists>merged. merge_consecutive_chords times_in labels confidences = Inr merged
           \<and> distinct_adj (map ce_label merged)
           \<and> merge_consecutive_chords (map ce_time merged) (map ce_label merged)
                 (map ce_confidence merged) = Inr merged"
proof -
  have "\<exists>merged. merge_consecutive_chords times_in labels confidences = Inr merged
           \<and> distinct_adj (map ce_label merged)"
  proof (cases "zip times_in (zip labels confidences)")
    case Nil
    then show ?thesis using assms
      by (auto simp: merge_consecutive_chords_def)
  next
    case (Cons x rest)
    obtain t l c where x: "x = (t, l, c)" by (cases x)
    show ?thesis using assms Cons merge_loop_labels
      by (auto simp: merge_consecutive_chords_def x)
  qed
  then show ?thesis using merge_consecutive_chords_fixed by blast
qed

theorem merge_consecutive_chords_idempotent_witness:
  "length [0, 1, 2, 3 :: real] \<le> length [''CM'', ''CM'', ''DM'', ''CM'']
   \<and> length [0, 1, 2, 3 :: real] \<le> length [5 / 10, 7 / 10, 4 / 10, 3 / 10 :: real]
   \<and> (\<exists>merged. merge_consecutive_chords [0, 1, 2, 3] [''CM'', ''CM'', ''DM'', ''CM'']
                   [5 / 10, 7 / 10, 4 / 10, 3 / 10] = Inr merged
           \<and> distinct_adj (map ce_label merged)
           \<and> merge_consecutive_chords (map ce_time merged) (map ce_label merged)
                 (map ce_confidence merged) = Inr merged)"
  using merge_consecutive_chords_idempotent
    [of "[0, 1, 2, 3]" "[''CM'', ''CM'', ''DM'', ''CM'']" "[5 / 10, 7 / 10, 4 / 10, 3 / 10]"]
  by simp

section \<open>Properties of melody.py\<close>

lemma close_note_ok:
  assumes "\<forall>n \<in> set acc. duration_ok mn mx n"
  shows "\<forall>n \<in> set (close_note mn mx acc p s e cs). duration_ok mn mx n"
  using assms by (auto simp: close_note_def make_note_def duration_ok_def Let_def)

lemma segment_loop_ok:
  assumes "\<forall>n \<in> set acc. duration_ok mn mx n"
  shows "\<forall>n \<in> set (segment_loop mn mx acc p s cs prev frames). duration_ok mn mx n"
  using assms
proof (induction frames arbitrary: acc p s cs prev)
  case Nil
  then show ?case by (simp add: close_note_ok)
next
  case (Cons fr frames)
  obtain t q c where fr: "fr = (t, q, c)" by (cases fr)
  show ?case
  proof (cases "q = p")
    case True
    then show ?thesis using Cons.IH [OF Cons.prems] by (simp add: fr)
  next
    case False
    have "\<forall>n \<in> set (close_note mn mx acc p s prev cs). duration_ok mn mx n"
      using Cons.prems by (rule close_note_ok)
    from Cons.IH [OF this] show ?thesis using False by (simp add: fr)
  qed
qed

text \<open>
  C6 (as amended). For F0 arrays of equal length and any threshold and duration limits,
  f0_to_midi_notes returns a note list, and every note in it has a duration, equal to
  end_time minus start_time, between min_note_duration and max_note_duration; its
  start_time is at most its end_time when min_note_duration is not negative, and
  strictly before it when min_note_duration is positive.
\<close>

theorem f0_to_midi_notes_duration_bounds:
  assumes "length f0_times = length f0_confidence"
      and "length f0_frequencies = length f0_confidence"
  shows "\<exists>out. f0_to_midi_notes f0_times f0_frequencies f0_confidence confidence_threshold
                    min_note_duration max_note_duration = Inr out
           \<and> (\<forall>n \<in> set out.
                  min_note_duration \<le> mel_duration n \<and> mel_duration n \<le> max_note_duration
                  \<and> mel_duration n = mel_end_time n - mel_start_time n
                  \<and> (0 \<le> min_note_duration \<longrightarrow> mel_start_time n \<le> mel_end_time n)
                  \<and> (0 < min_note_duration \<longrightarrow> mel_start_time n < mel_end_time n))"
proof -
  obtain out where out:
    "f0_to_midi_notes f0_times f0_frequencies f0_confidence confidence_threshold
        min_note_duration max_note_duration = Inr out"
    and ok: "\<forall>n \<in> set out. duration_ok min_note_duration max_note_duration n"
  proof (cases "valid_frames f0_times f0_frequencies f0_confidence confidence_threshold")
    case Nil
    then show ?thesis using assms that [of "[]"] by (simp add: f0_to_midi_notes_def)
  next
    case (Cons fr frames)
    obtain t q c where fr: "fr = (t, q, c)" by (cases fr)
    have "\<forall>n \<in> set (segment_loop min_note_duration max_note_duration [] q t [c] t frames).
            duration_ok min_note_duration max_note_duration n"
      by (rule segment_loop_ok) simp
    then show ?thesis using assms Cons that
      by (simp add: f0_to_midi_notes_def fr)
  qed
  have "min_note_duration \<le> mel_duration n \<and> mel_duration n \<le> max_note_duration
        \<and> mel_duration n = mel_end_time n - mel_start_time n
        \<and> (0 \<le> min_note_duration \<longrightarrow> mel_start_time n \<le> mel_end_time n)
        \<and> (0 < min_note_duration \<longrightarrow> mel_start_time n < mel_end_time n)"
    if "n \<in> set out" for n
    using ok that unfolding duration_ok_def by fastforce
  with out show ?thesis by blast
qed

theorem f0_to_midi_notes_duration_bounds_witness:
  "length [0, 1 / 10, 1 / 5 :: real] = length [9 / 10, 9 / 10, 9 / 10 :: real]
   \<and> length [440, 440, 440 :: real] = length [9 / 10, 9 / 10, 9 / 10 :: real]
   \<and> (\<exists>out. f0_to_midi_notes [0, 1 / 10, 1 / 5] [440, 440, 440] [9 / 10, 9 / 10, 9 / 10]
                   (1 / 2) (1 / 10) 2 = Inr out
           \<and> (\<forall>n \<in> set out.
                  1 / 10 \<le> mel_duration n \<and> mel_duration n \<le> 2
                  \<and> mel_duration n = mel_end_time n - mel_start_time n
                  \<and> mel_start_time n < mel_end_time n))"
  using f0_to_midi_notes_duration_bounds
    [of "[0, 1 / 10, 1 / 5]" "[9 / 10, 9 / 10, 9 / 10]" "[440, 440, 440]" "1 / 2" "1 / 10" 2]
  by simp blast

lemma f0_example: 
  "f0_to_midi_notes [0, 1 / 10, 1 / 5] [440, 440, 440] [9 / 10, 9 / 10, 9 / 10] (1 / 2) (1 / 10) 2
   = Inr [\<lparr>mel_pitch = 69, mel_start_time = 0, mel_end_time = 1 / 5, mel_duration = 1 / 5,
            mel_confidence = 9 / 10, mel_velocity = 57\<rparr>]"
  by (simp add: f0_to_midi_notes_def valid_frames_def midi_number_def hz_to_midi_def
      round_half_even_def close_note_def make_note_def np_mean_def py_int_def
      MIDI_VELOCITY_DEFAULT_def Let_def)

text \<open>
  C6 as stated fails for min_note_duration = 0: a run of a single frame has duration 0,
  which lies within the limits, and is emitted with start_time = end_time.
\<close>

theorem f0_to_midi_notes_zero_length_note:
  "(0::real) \<le> 0 \<and> (0::real) \<le> 2
   \<and> f0_to_midi_notes [0] [440] [9 / 10] (1 / 2) 0 2
       = Inr [\<lparr>mel_pitch = 69, mel_start_time = 0, mel_end_time = 0, mel_duration = 0,
                mel_confidence = 9 / 10, mel_velocity = 57\<rparr>]
   \<and> \<not> mel_start_time \<lparr>mel_pitch = 69, mel_start_time = 0, mel_end_time = 0, mel_duration = 0,
                mel_confidence = 9 / 10, mel_velocity = 57\<rparr>
        < mel_end_time \<lparr>mel_pitch = 69, mel_start_time = 0, mel_end_time = 0, mel_duration = 0,
                mel_confidence = 9 / 10, mel_velocity = 57\<rparr>"
  by (simp add: f0_to_midi_notes_def valid_frames_def midi_number_def hz_to_midi_def
      round_half_even_def close_note_def make_note_def np_mean_def py_int_def
      MIDI_VELOCITY_DEFAULT_def Let_def)








text \<open>
  C10. quantize_notes_to_beats returns as many notes as it was given, in the same order,
  each with the pitch, confidence and velocity of the corresponding input note.
\<close>

theorem quantize_preserves_frame:
  "length (quantize_notes_to_beats ns beat_times q) = length ns
   \<and> map mel_pitch (quantize_notes_to_beats ns beat_times q) = map mel_pitch ns
   \<and> map mel_confidence (quantize_notes_to_beats ns beat_times q) = map mel_confidence ns
   \<and> map mel_velocity (quantize_notes_to_beats ns beat_times q) = map mel_velocity ns"
  by (simp add: quantize_notes_to_beats_def quantize_note_def Let_def comp_def)

theorem quantize_preserves_frame_witness:
  "map mel_pitch (quantize_notes_to_beats
      [\<lparr>mel_pitch = 60, mel_start_time = 2 / 10, mel_end_time = 6 / 10,
         mel_duration = 4 / 10, mel_confidence = 9 / 10, mel_velocity = 57\<rparr>,
       \<lparr>mel_pitch = 64, mel_start_time = 7 / 10, mel_end_time = 9 / 10,
         mel_duration = 2 / 10, mel_confidence = 8 / 10, mel_velocity = 51\<rparr>] [0, 1 / 2, 1] (1 / 2))
     = [60, 64]"
  using quantize_preserves_frame
    [of "[\<lparr>mel_pitch = 60, mel_start_time = 2 / 10, mel_end_time = 6 / 10,
         mel_duration = 4 / 10, mel_confidence = 9 / 10, mel_velocity = 57\<rparr>,
       \<lparr>mel_pitch = 64, mel_start_time = 7 / 10, mel_end_time = 9 / 10,
         mel_duration = 2 / 10, mel_confidence = 8 / 10, mel_velocity = 51\<rparr>]" "[0, 1 / 2, 1]" "1 / 2"]
  by simp

end
